theory Spec2Isabelle
  imports Complex_Main
begin

section \<open>The PDF exporter of \<open>ExportConversationPDF.tsx\<close>\<close>

text \<open>
  The component \<open>ExportConversationPDF\<close> lays a chat transcript out on the pages of a
  jsPDF document.  The embedding follows the source block by block.

  \<^item> JavaScript numbers are modelled as \<open>real\<close>.  Every cursor value the code computes is a
    sum of the integer constants 15, 42, 10, 6, 5 and 3, so no rounding takes place in the
    cursor arithmetic; the page size and the text widths come from jsPDF and are parameters.
  \<^item> JavaScript strings are modelled as \<open>string\<close>, one \<open>char\<close> per code unit, which
    covers the code units \<open>0x00\<close> to \<open>0xFF\<close>.
  \<^item> The jsPDF document is a log of the calls made on it, in call order, together with the
    part of its state the code reads back: the current font style and size (read by
    \<open>getTextWidth\<close>) and the number of pages (read by the footer pass).
  \<^item> The clock, the locale formatting of dates, the font metrics and jsPDF's
    \<open>splitTextToSize\<close> are not code of the component; they are fields of an environment.
    The export moment is one value: the calls of \<open>new Date()\<close> during one export are
    taken to give the same moment.
\<close>

subsection \<open>Data model (source lines 7 to 25)\<close>

record searchResult =
  title :: string
  url :: string
  snippet :: string
  date :: "string option"

datatype role = User | Assistant

record message =
  id' :: string
  role :: role
  content :: string
  citations :: "string list option"
  searchResults :: "searchResult list option"
  createdAt :: "string option"

record props =
  conversationTitle :: string
  messages :: "message list"
  userName :: "string option"

record part =
  text' :: string
  bold :: bool

subsection \<open>The jsPDF document and the environment\<close>

datatype font_style = Normal | Bold

datatype doc_op =
    SetFillColor nat nat nat
  | Rect real real real real string
  | RoundedRect real real real real real real string
  | SetTextColor nat nat nat
  | SetFontSize real
  | SetFont string font_style
  | Text string real real
  | TextWithLink string real real string
  | AddPage
  | SetPage nat

record env =
  pageWidth :: real
  pageHeight :: real
  textWidth :: "font_style \<Rightarrow> real \<Rightarrow> string \<Rightarrow> real"
  splitTextToSize :: "real \<Rightarrow> string \<Rightarrow> real \<Rightarrow> string list"
  nowLocaleDate :: string
  toLocaleString :: "string \<Rightarrow> string"
  nowISO :: string

record state =
  yPosition :: real
  ops :: "doc_op list"
  fontStyle :: font_style
  fontSize :: real
  pages :: nat

definition emit :: "doc_op \<Rightarrow> state \<Rightarrow> state" where
  "emit x s = s\<lparr>ops := ops s @ [x]\<rparr>"

definition setFont :: "font_style \<Rightarrow> state \<Rightarrow> state" where
  "setFont f s = (emit (SetFont ''helvetica'' f) s)\<lparr>fontStyle := f\<rparr>"

definition setFontSize :: "real \<Rightarrow> state \<Rightarrow> state" where
  "setFontSize z s = (emit (SetFontSize z) s)\<lparr>fontSize := z\<rparr>"

definition addPage :: "state \<Rightarrow> state" where
  "addPage s = (emit AddPage s)\<lparr>pages := Suc (pages s)\<rparr>"

definition getTextWidth :: "env \<Rightarrow> state \<Rightarrow> string \<Rightarrow> real" where
  "getTextWidth E s t = textWidth E (fontStyle s) (fontSize s) t"

definition advance :: "real \<Rightarrow> state \<Rightarrow> state" where
  "advance h s = s\<lparr>yPosition := yPosition s + h\<rparr>"

subsection \<open>Page geometry and \<open>checkNewPage\<close> (source lines 66 to 80)\<close>

definition margin :: real where
  "margin = 15"

definition maxWidth :: "env \<Rightarrow> real" where
  "maxWidth E = pageWidth E - 2 * margin"

definition checkNewPage :: "env \<Rightarrow> real \<Rightarrow> state \<Rightarrow> state \<times> bool" where
  "checkNewPage E requiredSpace s =
     (if yPosition s + requiredSpace > pageHeight E - margin - 10
      then ((addPage s)\<lparr>yPosition := margin\<rparr>, True)
      else (s, False))"

subsection \<open>String helpers of the JavaScript runtime\<close>

text \<open>\<open>s.split(c)\<close> for a one-character separator: never empty, \<open>[s]\<close> when \<open>c\<close> is absent.\<close>

fun splitOn :: "char \<Rightarrow> string \<Rightarrow> string list" where
  "splitOn c [] = [[]]"
| "splitOn c (x # xs) =
     (if x = c then [] # splitOn c xs
      else (case splitOn c xs of [] \<Rightarrow> [[x]] | l # ls \<Rightarrow> (x # l) # ls))"

text \<open>\<open>s.substring(a, b)\<close> for \<open>a \<le> b\<close>, clamped to the string as JavaScript does.\<close>

definition substring :: "string \<Rightarrow> nat \<Rightarrow> nat \<Rightarrow> string" where
  "substring s a b = take (b - a) (drop a s)"

text \<open>The white space \<open>trim\<close> removes, among the code units below \<open>0x100\<close>.\<close>

definition isSpace :: "char \<Rightarrow> bool" where
  "isSpace c = (c \<in> set [CHR 0x09, CHR 0x0A, CHR 0x0B, CHR 0x0C, CHR 0x0D, CHR 0x20, CHR 0xA0])"

definition trim :: "string \<Rightarrow> string" where
  "trim s = rev (dropWhile isSpace (rev (dropWhile isSpace s)))"

text \<open>The characters \<open>.\<close> does not match, among the code units below \<open>0x100\<close>.\<close>

definition isLineTerminator :: "char \<Rightarrow> bool" where
  "isLineTerminator c = (c = CHR 0x0A \<or> c = CHR 0x0D)"

text \<open>The class \<open>[a-z0-9]\<close> under the flag \<open>i\<close>.\<close>

definition isAlnum :: "char \<Rightarrow> bool" where
  "isAlnum c =
     (c \<in> set ''abcdefghijklmnopqrstuvwxyzABCDEFGHIJKLMNOPQRSTUVWXYZ0123456789'')"

text \<open>Template-literal conversion of a page number.\<close>

fun showNat :: "nat \<Rightarrow> string" where
  "showNat n =
     (if n < 10 then [''0123456789'' ! n]
      else showNat (n div 10) @ [''0123456789'' ! (n mod 10)])"

declare showNat.simps [simp del]

subsection \<open>The file name (source lines 284 to 287)\<close>

definition sanitizedTitle :: "string \<Rightarrow> string" where
  "sanitizedTitle t = substring (map (\<lambda>c. if isAlnum c then c else CHR ''_'') t) 0 50"

definition filename :: "env \<Rightarrow> string \<Rightarrow> string" where
  "filename E t =
     ''MedChat_'' @ sanitizedTitle t @ ''_'' @ hd (splitOn CHR ''T'' (nowISO E)) @ ''.pdf''"

subsection \<open>The bold tokenizer (source lines 155 to 178)\<close>

text \<open>
  The regular expression is \<open>/\*\*(.*?)\*\*/g\<close>.  Anchored at the head of a string it needs
  two stars, then the shortest run of characters that are not line terminators which is
  followed by two stars.  \<open>lazyClose\<close> is the lazy quantifier with its continuation: on the
  text after the opening stars it returns the length of the capture.
\<close>

fun lazyClose :: "string \<Rightarrow> nat option" where
  "lazyClose (c1 # c2 # cs) =
     (if c1 = CHR ''*'' \<and> c2 = CHR ''*'' then Some 0
      else if isLineTerminator c1 then None
      else map_option Suc (lazyClose (c2 # cs)))"
| "lazyClose _ = None"

fun matchAt :: "string \<Rightarrow> nat option" where
  "matchAt (c1 # c2 # cs) = (if c1 = CHR ''*'' \<and> c2 = CHR ''*'' then lazyClose cs else None)"
| "matchAt _ = None"

text \<open>
  The leftmost match in a string: the offset of its opening stars and the length of its
  capture.
\<close>

fun search :: "string \<Rightarrow> (nat \<times> nat) option" where
  "search [] = None"
| "search (c # cs) =
     (case matchAt (c # cs) of
        Some k \<Rightarrow> Some (0, k)
      | None \<Rightarrow> map_option (\<lambda>(i, k). (Suc i, k)) (search cs))"

record regexMatch =
  index :: nat
  match0 :: string
  match1 :: string

text \<open>
  \<open>boldRegex.exec(line)\<close> with the regular expression's \<open>lastIndex\<close>.  The loop keeps its
  own variable \<open>lastIndex\<close> equal to the regular expression's: both start at 0 and both are
  \<open>match.index + match[0].length\<close> after a match.
\<close>

definition boldRegexExec :: "string \<Rightarrow> nat \<Rightarrow> regexMatch option" where
  "boldRegexExec line lastIndex =
     (if lastIndex > length line then None
      else (case search (drop lastIndex line) of
              None \<Rightarrow> None
            | Some (i, k) \<Rightarrow>
                Some \<lparr>index = lastIndex + i,
                      match0 = substring line (lastIndex + i) (lastIndex + i + k + 4),
                      match1 = substring line (lastIndex + i + 2) (lastIndex + i + 2 + k)\<rparr>))"

lemma lazyClose_bound: "lazyClose s = Some k \<Longrightarrow> k + 2 \<le> length s"
  by (induction s arbitrary: k rule: lazyClose.induct) (auto split: if_splits)

lemma search_bound: "search s = Some (i, k) \<Longrightarrow> i + k + 4 \<le> length s"
proof (induction s arbitrary: i)
  case Nil
  then show ?case by simp
next
  case (Cons c cs)
  show ?case
  proof (cases "matchAt (c # cs)")
    case None
    with Cons.prems obtain j where "search cs = Some (j, k)" and "i = Suc j"
      by auto
    with Cons.IH show ?thesis by fastforce
  next
    case (Some k')
    with Cons.prems have i: "i = 0" and k: "k' = k" by auto
    from Some obtain c2 rest where cs: "cs = c2 # rest" and "lazyClose rest = Some k'"
      by (cases cs) (auto split: if_splits)
    with lazyClose_bound [of rest k'] i k show ?thesis by simp
  qed
qed

lemma boldRegexExec_advances:
  assumes "boldRegexExec line lastIndex = Some m"
  shows "lastIndex < index m + length (match0 m)" and "index m + length (match0 m) \<le> length line"
proof -
  from assms obtain i k where le: "lastIndex \<le> length line"
    and s: "search (drop lastIndex line) = Some (i, k)"
    and m: "m = \<lparr>index = lastIndex + i,
                 match0 = substring line (lastIndex + i) (lastIndex + i + k + 4),
                 match1 = substring line (lastIndex + i + 2) (lastIndex + i + 2 + k)\<rparr>"
    by (auto simp: boldRegexExec_def split: if_splits option.splits)
  from search_bound [OF s] le have b: "lastIndex + i + k + 4 \<le> length line" by simp
  with m have len: "length (match0 m) = k + 4" by (simp add: substring_def)
  from m len show "lastIndex < index m + length (match0 m)" by simp
  from m len b show "index m + length (match0 m) \<le> length line" by simp
qed

text \<open>The \<open>while\<close> loop of lines 161 to 169, on \<open>lastIndex\<close> and \<open>parts\<close>.\<close>

function tokLoop :: "string \<Rightarrow> nat \<Rightarrow> part list \<Rightarrow> nat \<times> part list" where
  "tokLoop line lastIndex parts =
     (case boldRegexExec line lastIndex of
        None \<Rightarrow> (lastIndex, parts)
      | Some m \<Rightarrow>
          tokLoop line (index m + length (match0 m))
            ((if index m > lastIndex
              then parts @ [\<lparr>text' = substring line lastIndex (index m), bold = False\<rparr>]
              else parts)
             @ [\<lparr>text' = match1 m, bold = True\<rparr>]))"
  by pat_completeness auto
termination
proof (relation "measure (\<lambda>(line, lastIndex, parts). length line - lastIndex)", goal_cases)
  case 1
  show ?case by simp
next
  case (2 line lastIndex parts m)
  from boldRegexExec_advances [OF 2] show ?case by simp
qed

declare tokLoop.simps [simp del]

text \<open>Lines 155 to 178: the parts of one line.\<close>

definition tokenize :: "string \<Rightarrow> part list" where
  "tokenize line =
     (let (lastIndex, parts) = tokLoop line 0 [];
          parts = (if lastIndex < length line
                   then parts @ [\<lparr>text' = substring line lastIndex (length line), bold = False\<rparr>]
                   else parts)
      in if length parts = 0 then parts @ [\<lparr>text' = line, bold = False\<rparr>] else parts)"

text \<open>
  The reading of the specification, to compare the tokenizer with: a line with the
  delimiters of every complete pair removed.  The pairs are taken from left to right; a
  pair opens at the first marker that has a closing marker after it on the same line and
  closes at the nearest such marker; what follows the closing marker is treated in the
  same way.
\<close>

function stripPairs :: "string \<Rightarrow> string" where
  "stripPairs s =
     (case search s of
        None \<Rightarrow> s
      | Some (i, k) \<Rightarrow> take i s @ take k (drop (i + 2) s) @ stripPairs (drop (i + k + 4) s))"
  by pat_completeness auto
termination
proof (relation "measure length", goal_cases)
  case 1
  show ?case by simp
next
  case (2 s x i k)
  then have "search s = Some (i, k)" by simp
  from search_bound [OF this] show ?case by simp
qed

declare stripPairs.simps [simp del]

subsection \<open>Dates and reference titles (source lines 34 to 50)\<close>

text \<open>
  \<open>formatDate\<close>: an absent or empty argument gives the export moment as a locale date;
  otherwise the argument is parsed and formatted by the runtime.
\<close>

definition formatDate :: "env \<Rightarrow> string option \<Rightarrow> string" where
  "formatDate E dateStr =
     (case dateStr of
        None \<Rightarrow> nowLocaleDate E
      | Some d \<Rightarrow> if d = [] then nowLocaleDate E else toLocaleString E d)"

definition wrapText :: "env \<Rightarrow> string \<Rightarrow> real \<Rightarrow> real \<Rightarrow> string list" where
  "wrapText E t w z = splitTextToSize E z t w"

subsection \<open>The document header (source lines 82 to 97)\<close>

definition newDoc :: state where
  "newDoc = \<lparr>yPosition = margin, ops = [], fontStyle = Normal, fontSize = 16, pages = 1\<rparr>"

definition renderHeader :: "env \<Rightarrow> props \<Rightarrow> state \<Rightarrow> state" where
  "renderHeader E P s0 =
     (let s = emit (SetFillColor 52 73 94) s0;
          s = emit (Rect 0 0 (pageWidth E) 35 ''F'') s;
          s = emit (SetTextColor 255 255 255) s;
          s = setFontSize 18 s;
          s = setFont Bold s;
          s = emit (Text ''MedChat - Medical Consultation'' margin 15) s;
          s = setFontSize 11 s;
          s = setFont Normal s;
          titleText = (if conversationTitle P = [] then ''Conversation'' else conversationTitle P);
          s = emit (Text (substring titleText 0 80) margin 23) s;
          s = emit (Text (''Exported: '' @ formatDate E None) margin 29) s
      in s\<lparr>yPosition := 42\<rparr>)"

subsection \<open>One line of content (source lines 146 to 223)\<close>

text \<open>The inner loop of lines 194 to 198 and 216 to 220, on \<open>xPos\<close>.\<close>

fun drawParts :: "env \<Rightarrow> part list \<Rightarrow> real \<Rightarrow> state \<Rightarrow> state" where
  "drawParts E [] xPos s = s"
| "drawParts E (p # ps) xPos s0 =
     (let s = setFont (if bold p then Bold else Normal) s0;
          s = emit (Text (text' p) xPos (yPosition s)) s
      in drawParts E ps (xPos + getTextWidth E s (text' p)) s)"

text \<open>Lines 191 to 200, and again lines 213 to 222: one visual line.\<close>

definition flushLine :: "env \<Rightarrow> part list \<Rightarrow> state \<Rightarrow> state" where
  "flushLine E currentLineParts s0 =
     (if length currentLineParts > 0
      then (let s = fst (checkNewPage E 6 s0);
                s = drawParts E currentLineParts (margin + 3) s
            in advance 6 s)
      else s0)"

text \<open>The loop of lines 184 to 210, on \<open>currentLineText\<close> and \<open>currentLineParts\<close>.\<close>

fun packParts ::
  "env \<Rightarrow> part list \<Rightarrow> string \<Rightarrow> part list \<Rightarrow> state \<Rightarrow> string \<times> part list \<times> state" where
  "packParts E [] currentLineText currentLineParts s = (currentLineText, currentLineParts, s)"
| "packParts E (p # ps) currentLineText currentLineParts s0 =
     (let testText = currentLineText @ text' p;
          s = setFont Normal s0;
          testWidth = getTextWidth E s testText
      in if testWidth > maxWidth E - 6
         then packParts E ps (text' p) [p] (flushLine E currentLineParts s)
         else packParts E ps testText (currentLineParts @ [p]) s)"

definition renderLine :: "env \<Rightarrow> string \<Rightarrow> state \<Rightarrow> state" where
  "renderLine E line s0 =
     (if trim line = []
      then advance 5 (fst (checkNewPage E 5 s0))
      else (let (currentLineText, currentLineParts, s) = packParts E (tokenize line) [] [] s0
            in flushLine E currentLineParts s))"

subsection \<open>One message (source lines 100 to 267)\<close>

definition senderName :: "props \<Rightarrow> message \<Rightarrow> string" where
  "senderName P m =
     (if role m = User then (case userName P of None \<Rightarrow> ''User'' | Some n \<Rightarrow> n)
      else ''MedChat AI'')"

definition renderMessageHeader :: "env \<Rightarrow> props \<Rightarrow> message \<Rightarrow> state \<Rightarrow> state" where
  "renderMessageHeader E P m s0 =
     (let s = fst (checkNewPage E 15 s0);
          s = emit (if role m = User then SetFillColor 240 248 255
                    else SetFillColor 248 250 252) s;
          s = emit (RoundedRect margin (yPosition s) (maxWidth E) 8 2 2 ''F'') s;
          s = setFontSize 10 s;
          s = setFont Bold s;
          s = emit (if role m = User then SetTextColor 41 98 255 else SetTextColor 34 139 34) s;
          s = emit (Text (senderName P m) (margin + 3) (yPosition s + 5.5)) s;
          s = (if createdAt m \<noteq> None \<and> createdAt m \<noteq> Some []
               then (let t = setFont Normal s;
                         t = setFontSize 8 t;
                         t = emit (SetTextColor 120 120 120) t;
                         timeText = formatDate E (createdAt m);
                         timeWidth = getTextWidth E t timeText
                     in emit (Text timeText (pageWidth E - margin - timeWidth - 3)
                                (yPosition t + 5.5)) t)
               else s)
      in advance 10 s)"

definition renderContent :: "env \<Rightarrow> message \<Rightarrow> state \<Rightarrow> state" where
  "renderContent E m s0 =
     (let s = emit (SetTextColor 0 0 0) s0;
          s = setFontSize 10 s;
          s = fold (renderLine E) (splitOn CHR 0x0A (content m)) s
      in advance 3 s)"

fun renderTitleLines :: "env \<Rightarrow> string list \<Rightarrow> state \<Rightarrow> state" where
  "renderTitleLines E [] s = s"
| "renderTitleLines E (titleLine # rest) s0 =
     (let s = fst (checkNewPage E 5 s0);
          s = emit (Text titleLine (margin + 6) (yPosition s)) s;
          s = advance 5 s
      in renderTitleLines E rest s)"

fun renderResults :: "env \<Rightarrow> searchResult list \<Rightarrow> nat \<Rightarrow> state \<Rightarrow> state" where
  "renderResults E [] idx s = s"
| "renderResults E (result # rest) idx s0 =
     (let s = fst (checkNewPage E 12 s0);
          s = setFont Bold s;
          s = setFontSize 9 s;
          s = emit (SetTextColor 0 0 0) s;
          titleText = showNat (idx + 1) @ ''. '' @ title result;
          titleLines = wrapText E titleText (maxWidth E - 10) 9;
          s = renderTitleLines E titleLines s;
          s = setFont Normal s;
          s = setFontSize 8 s;
          s = emit (SetTextColor 41 98 255) s;
          s = fst (checkNewPage E 4 s);
          s = emit (TextWithLink (url result) (margin + 6) (yPosition s) (url result)) s;
          s = advance 5 s
      in renderResults E rest (Suc idx) s)"

definition renderReferences :: "env \<Rightarrow> message \<Rightarrow> state \<Rightarrow> state" where
  "renderReferences E m s0 =
     (case searchResults m of
        None \<Rightarrow> s0
      | Some results \<Rightarrow>
          if length results > 0
          then (let s = fst (checkNewPage E 10 s0);
                    s = setFontSize 9 s;
                    s = setFont Bold s;
                    s = emit (SetTextColor 70 70 70) s;
                    s = emit (Text ''References:'' (margin + 3) (yPosition s)) s;
                    s = advance 6 s;
                    s = renderResults E results 0 s
                in advance 3 s)
          else s0)"

definition renderMessage :: "env \<Rightarrow> props \<Rightarrow> message \<Rightarrow> state \<Rightarrow> state" where
  "renderMessage E P m s0 =
     (let s = renderMessageHeader E P m s0;
          s = renderContent E m s;
          s = renderReferences E m s
      in advance 5 s)"

subsection \<open>Footers and the entry point (source lines 52 to 298)\<close>

definition renderFooter :: "env \<Rightarrow> nat \<Rightarrow> nat \<Rightarrow> state \<Rightarrow> state" where
  "renderFooter E pageCount i s0 =
     (let s = emit (SetPage i) s0;
          s = setFontSize 8 s;
          s = emit (SetTextColor 150 150 150) s;
          s = setFont Normal s;
          footerText = ''Page '' @ showNat i @ ''/'' @ showNat pageCount
                       @ '' | MedChat Medical AI | '' @ hd (splitOn CHR '','' (formatDate E None));
          footerWidth = getTextWidth E s footerText
      in emit (Text footerText ((pageWidth E - footerWidth) / 2) (pageHeight E - 8)) s)"

text \<open>The layout pass: the header, then every message in array order.\<close>

definition layoutPass :: "env \<Rightarrow> props \<Rightarrow> state" where
  "layoutPass E P = fold (renderMessage E P) (messages P) (renderHeader E P newDoc)"

text \<open>
  What \<open>exportToPDF\<close> does to the outside, in order: toasts, the \<open>isExporting\<close> flag, the
  calls on the document and the save.  The source's \<open>catch\<close> handler runs only when a
  library call throws, which the library calls of this model never do.
\<close>

datatype effect =
    ToastError string
  | ToastSuccess string
  | SetIsExporting bool
  | DocCall doc_op
  | Save string

definition exportToPDF :: "env \<Rightarrow> props \<Rightarrow> effect list" where
  "exportToPDF E P =
     (if length (messages P) = 0 then [ToastError ''No messages to export'']
      else (let s = layoutPass E P;
                pageCount = pages s;
                s = fold (renderFooter E pageCount) [1 ..< Suc pageCount] s
            in [SetIsExporting True] @ map DocCall (ops s)
               @ [Save (filename E (conversationTitle P)),
                  ToastSuccess ''Conversation exported successfully!'',
                  SetIsExporting False]))"

subsection \<open>Reading the log\<close>

text \<open>The text that \<open>doc.text\<close> has drawn, in drawing order.\<close>

fun opText :: "doc_op \<Rightarrow> string" where
  "opText (Text t x y) = t"
| "opText _ = []"

definition drawnText :: "doc_op list \<Rightarrow> string" where
  "drawnText xs = concat (map opText xs)"

text \<open>A part as it stood in the line: an emphasised part between its two markers.\<close>

definition unparse :: "part \<Rightarrow> string" where
  "unparse p = (if bold p then ''**'' @ text' p @ ''**'' else text' p)"

text \<open>Whether a string contains the marker \<open>**\<close>.\<close>

fun hasMarker :: "string \<Rightarrow> bool" where
  "hasMarker (a # b # cs) = ((a = CHR ''*'' \<and> b = CHR ''*'') \<or> hasMarker (b # cs))"
| "hasMarker _ = False"

text \<open>
  The usable bottom bound of a page (bottom margin 15, footer reserve 10), and whether
  what a call draws ends at or above a height \<open>b\<close>: the base line of a text, the lower
  edge of a rectangle.
\<close>

definition usableBottom :: "env \<Rightarrow> real" where
  "usableBottom E = pageHeight E - margin - 10"

fun inBound :: "real \<Rightarrow> doc_op \<Rightarrow> bool" where
  "inBound b (Text t x y) = (y \<le> b)"
| "inBound b (TextWithLink t x y u) = (y \<le> b)"
| "inBound b (Rect x y w h st) = (y + h \<le> b)"
| "inBound b (RoundedRect x y w h rx ry st) = (y + h \<le> b)"
| "inBound b _ = True"

text \<open>A state with the horizontal position of every drawn text forgotten.\<close>

fun eraseX :: "doc_op \<Rightarrow> doc_op" where
  "eraseX (Text t x y) = Text t 0 y"
| "eraseX c = c"

definition eraseXs :: "state \<Rightarrow> state" where
  "eraseXs s = s\<lparr>ops := map eraseX (ops s)\<rparr>"

text \<open>Two messages that differ at most in their \<open>citations\<close>.\<close>

definition sameButCitations :: "message \<Rightarrow> message \<Rightarrow> bool" where
  "sameButCitations m m' =
     (id' m' = id' m \<and> role m' = role m \<and> content m' = content m \<and>
      searchResults m' = searchResults m \<and> createdAt m' = createdAt m)"

subsection \<open>Sample inputs\<close>

text \<open>
  An A4 page in millimetres, a font of fixed pitch whose bold face is wider than its
  normal face, a \<open>splitTextToSize\<close> that never splits, and a fixed export moment.
\<close>

definition demoEnv :: env where
  "demoEnv =
     \<lparr>pageWidth = 210, pageHeight = 297,
      textWidth = (\<lambda>f z t. (if f = Bold then 3 else 2) * z * real (length t) / 10),
      splitTextToSize = (\<lambda>z t w. [t]),
      nowLocaleDate = ''1/15/2024'',
      toLocaleString = (\<lambda>d. ''Jan 15, 2024, 10:00 AM''),
      nowISO = ''2024-01-15T10:00:00.000Z''\<rparr>"

definition demoMessage :: message where
  "demoMessage =
     \<lparr>id' = ''m1'', role = User, content = ''a **b** c'', citations = None,
      searchResults = None, createdAt = None\<rparr>"

definition demoProps :: props where
  "demoProps = \<lparr>conversationTitle = ''T'', messages = [demoMessage], userName = None\<rparr>"

text \<open>A single message of 44 empty lines.\<close>

definition blankLinesProps :: props where
  "blankLinesProps =
     demoProps\<lparr>messages := [demoMessage\<lparr>content := replicate 43 (CHR 0x0A)\<rparr>]\<rparr>"

text \<open>A single message of 51 empty lines, which does not fit on one page.\<close>

definition twoPageProps :: props where
  "twoPageProps =
     demoProps\<lparr>messages := [demoMessage\<lparr>content := replicate 50 (CHR 0x0A)\<rparr>]\<rparr>"

text \<open>A line of 40 plain characters followed by 40 emphasised ones.\<close>

definition wideLine :: string where
  "wideLine = replicate 40 CHR ''a'' @ ''**'' @ replicate 40 CHR ''b'' @ ''**''"

text \<open>
  A line of 50 plain characters, 50 emphasised ones and a plain tail with a marker that
  has no closing marker; it does not fit on one visual line.
\<close>

definition longLine :: string where
  "longLine = replicate 50 CHR ''a'' @ ''**'' @ replicate 50 CHR ''b'' @ ''**'' @ '' c **d''"

text \<open>The same environment with a bold face as wide as the normal face.\<close>

definition monoEnv :: env where
  "monoEnv = demoEnv\<lparr>textWidth := (\<lambda>f z t. 2 * z * real (length t) / 10)\<rparr>"

section \<open>Properties\<close>

subsection \<open>The space check\<close>

text \<open>
  Claim C2.  For a pending block of height \<open>h\<close>, \<open>checkNewPage\<close> breaks the page exactly
  when the cursor plus \<open>h\<close> exceeds \<open>pageHeight - margin - 10\<close> (bottom margin 15, footer
  reserve 10).  When it breaks it returns true, one page has been added and the cursor is
  the top margin; when it does not, it returns false and the state, cursor included, is
  unchanged.
\<close>

theorem checkNewPage_spec:
  "(snd (checkNewPage E h s) \<longleftrightarrow> yPosition s + h > pageHeight E - margin - 10) \<and>
   (snd (checkNewPage E h s) \<longrightarrow>
      yPosition (fst (checkNewPage E h s)) = margin \<and>
      pages (fst (checkNewPage E h s)) = Suc (pages s) \<and>
      ops (fst (checkNewPage E h s)) = ops s @ [AddPage]) \<and>
   (\<not> snd (checkNewPage E h s) \<longrightarrow> fst (checkNewPage E h s) = s)"
  by (simp add: checkNewPage_def addPage_def emit_def)

theorem checkNewPage_spec_witness:
  "snd (checkNewPage demoEnv 15 (newDoc\<lparr>yPosition := 260\<rparr>)) \<and>
   yPosition (fst (checkNewPage demoEnv 15 (newDoc\<lparr>yPosition := 260\<rparr>))) = margin \<and>
   pages (fst (checkNewPage demoEnv 15 (newDoc\<lparr>yPosition := 260\<rparr>))) = 2 \<and>
   \<not> snd (checkNewPage demoEnv 15 (newDoc\<lparr>yPosition := 257\<rparr>)) \<and>
   fst (checkNewPage demoEnv 15 (newDoc\<lparr>yPosition := 257\<rparr>)) = newDoc\<lparr>yPosition := 257\<rparr>"
  using checkNewPage_spec [of demoEnv 15 "newDoc\<lparr>yPosition := 260\<rparr>"]
    checkNewPage_spec [of demoEnv 15 "newDoc\<lparr>yPosition := 257\<rparr>"]
  by (simp add: demoEnv_def newDoc_def margin_def)

subsection \<open>The empty transcript\<close>

text \<open>
  Claim C1.  When the list of messages is empty, \<open>exportToPDF\<close> shows the error toast
  and does nothing else: no call on the document, no save, no success toast.
\<close>

theorem export_empty:
  "messages P = [] \<Longrightarrow> exportToPDF E P = [ToastError ''No messages to export'']"
  by (simp add: exportToPDF_def)

theorem export_empty_witness:
  "messages (demoProps\<lparr>messages := []\<rparr>) = [] \<and>
   exportToPDF demoEnv (demoProps\<lparr>messages := []\<rparr>) = [ToastError ''No messages to export'']"
  using export_empty [of "demoProps\<lparr>messages := []\<rparr>" demoEnv] by simp

subsection \<open>The regular expression\<close>

lemma hasMarker_append: "hasMarker (u @ CHR ''*'' # CHR ''*'' # v)"
proof (induction u)
  case Nil
  show ?case by simp
next
  case (Cons a u)
  then show ?case by (cases u) auto
qed

lemma hasMarker_iff: "hasMarker s \<longleftrightarrow> (\<exists>u v. s = u @ ''**'' @ v)"
proof
  show "hasMarker s \<Longrightarrow> \<exists>u v. s = u @ ''**'' @ v"
  proof (induction s rule: hasMarker.induct)
    case (1 a b cs)
    show ?case
    proof (cases "a = CHR ''*'' \<and> b = CHR ''*''")
      case True
      then have "a # b # cs = [] @ ''**'' @ cs" by simp
      then show ?thesis by blast
    next
      case False
      with 1 obtain u v where "b # cs = u @ ''**'' @ v" by auto
      then have "a # b # cs = (a # u) @ ''**'' @ v" by simp
      then show ?thesis by blast
    qed
  qed simp_all
next
  assume "\<exists>u v. s = u @ ''**'' @ v"
  then show "hasMarker s" using hasMarker_append by auto
qed

lemma lazyClose_split: "lazyClose s = Some k \<Longrightarrow> s = take k s @ ''**'' @ drop (k + 2) s"
  by (induction s arbitrary: k rule: lazyClose.induct) (auto split: if_splits)

lemma lazyClose_no_marker: "lazyClose s = Some k \<Longrightarrow> \<not> hasMarker (take k s)"
proof (induction s arbitrary: k rule: lazyClose.induct)
  case (1 c1 c2 cs)
  show ?case
  proof (cases "c1 = CHR ''*'' \<and> c2 = CHR ''*''")
    case True
    with 1 show ?thesis by simp
  next
    case False
    with "1.prems" obtain k' where k: "k = Suc k'" and l: "lazyClose (c2 # cs) = Some k'"
      and nt: "\<not> isLineTerminator c1"
      by (auto split: if_splits)
    from "1.IH" [OF False nt l] have ih: "\<not> hasMarker (take k' (c2 # cs))" .
    show ?thesis
    proof (cases k')
      case 0
      with k show ?thesis by simp
    next
      case (Suc j)
      with k ih False show ?thesis by simp
    qed
  qed
qed simp_all

lemma lazyClose_no_terminator:
  "lazyClose s = Some k \<Longrightarrow> \<forall>c \<in> set (take k s). \<not> isLineTerminator c"
  by (induction s arbitrary: k rule: lazyClose.induct) (auto split: if_splits)

lemma matchAt_Some:
  "matchAt s = Some k \<Longrightarrow> take 2 s = ''**'' \<and> lazyClose (drop 2 s) = Some k"
  by (induction s rule: matchAt.induct) (auto split: if_splits)

lemma search_Some:
  "search s = Some (i, k) \<Longrightarrow>
   take 2 (drop i s) = ''**'' \<and> lazyClose (drop (i + 2) s) = Some k"
proof (induction s arbitrary: i)
  case Nil
  then show ?case by simp
next
  case (Cons c cs)
  show ?case
  proof (cases "matchAt (c # cs)")
    case None
    with Cons.prems obtain j where "search cs = Some (j, k)" and "i = Suc j" by auto
    with Cons.IH show ?thesis by simp
  next
    case (Some k')
    with Cons.prems have "i = 0" and "k' = k" by auto
    with matchAt_Some [OF Some] show ?thesis by simp
  qed
qed

lemma search_split:
  assumes "search s = Some (i, k)"
  shows "drop i s = ''**'' @ take k (drop (i + 2) s) @ ''**'' @ drop (i + k + 4) s"
proof -
  from search_Some [OF assms] have a: "take 2 (drop i s) = ''**''"
    and b: "lazyClose (drop (i + 2) s) = Some k" by simp_all
  have "drop i s = take 2 (drop i s) @ drop 2 (drop i s)"
    by (rule append_take_drop_id [symmetric])
  also have "drop 2 (drop i s) = drop (i + 2) s" by (simp add: add.commute)
  also have "drop (i + 2) s = take k (drop (i + 2) s) @ ''**'' @ drop (k + 2) (drop (i + 2) s)"
    by (rule lazyClose_split [OF b])
  also have "drop (k + 2) (drop (i + 2) s) = drop (i + k + 4) s"
  proof -
    have "k + 2 + (i + 2) = i + k + 4" by arith
    then show ?thesis by (simp only: drop_drop)
  qed
  finally show ?thesis using a by simp
qed

lemma search_None_no_marker: "\<not> hasMarker s \<Longrightarrow> search s = None"
proof (induction s)
  case Nil
  show ?case by simp
next
  case (Cons c cs)
  then have "\<not> hasMarker cs" by (cases cs) auto
  moreover from Cons.prems have "matchAt (c # cs) = None" by (cases cs) auto
  ultimately show ?case using Cons.IH by simp
qed

lemma boldRegexExec_None:
  "lastIndex \<le> length line \<Longrightarrow> boldRegexExec line lastIndex = None \<longleftrightarrow> search (drop lastIndex line) = None"
  by (auto simp: boldRegexExec_def split: option.splits)

lemma boldRegexExec_Some:
  assumes "boldRegexExec line lastIndex = Some m"
  shows "lastIndex \<le> index m"
    and "substring line lastIndex (index m + length (match0 m)) =
           substring line lastIndex (index m) @ ''**'' @ match1 m @ ''**''"
    and "\<not> hasMarker (match1 m)"
    and "\<forall>c \<in> set (match1 m). \<not> isLineTerminator c"
proof -
  from assms obtain i k where le: "lastIndex \<le> length line"
    and s: "search (drop lastIndex line) = Some (i, k)"
    and m: "m = \<lparr>index = lastIndex + i,
                 match0 = substring line (lastIndex + i) (lastIndex + i + k + 4),
                 match1 = substring line (lastIndex + i + 2) (lastIndex + i + 2 + k)\<rparr>"
    by (auto simp: boldRegexExec_def split: if_splits option.splits)
  let ?r = "drop lastIndex line"
  from search_bound [OF s] le have b: "lastIndex + i + k + 4 \<le> length line" by simp
  with m have len: "length (match0 m) = k + 4" by (simp add: substring_def)
  have m1: "match1 m = take k (drop (i + 2) ?r)"
    using m by (simp add: substring_def ac_simps)
  from m show "lastIndex \<le> index m" by simp
  from search_Some [OF s] have lc: "lazyClose (drop (i + 2) ?r) = Some k" by simp
  from lazyClose_no_marker [OF lc] m1 show "\<not> hasMarker (match1 m)" by simp
  from lazyClose_no_terminator [OF lc] m1 show "\<forall>c \<in> set (match1 m). \<not> isLineTerminator c"
    by simp
  have "substring line lastIndex (index m + length (match0 m)) = take (i + k + 4) ?r"
    using m len by (simp add: substring_def ac_simps)
  also have "\<dots> = take i ?r @ take (k + 4) (drop i ?r)"
    by (simp add: take_add ac_simps)
  also have "take (k + 4) (drop i ?r) = ''**'' @ match1 m @ ''**''"
  proof -
    have "length (''**'' @ match1 m @ ''**'') = k + 4"
      using m b by (simp add: substring_def)
    moreover have "drop i ?r = (''**'' @ match1 m @ ''**'') @ drop (i + k + 4) ?r"
      using search_split [OF s] m1 by simp
    ultimately show ?thesis
      by (metis append_eq_conv_conj)
  qed
  also have "take i ?r = substring line lastIndex (index m)"
    using m by (simp add: substring_def)
  finally show "substring line lastIndex (index m + length (match0 m)) =
           substring line lastIndex (index m) @ ''**'' @ match1 m @ ''**''" .
qed

lemma substring_empty: "substring s a a = []"
  by (simp add: substring_def)

lemma substring_append:
  assumes "a \<le> b" and "b \<le> c"
  shows "substring s a b @ substring s b c = substring s a c"
proof -
  from assms have "c - a = (b - a) + (c - b)" by arith
  then have "take (c - a) (drop a s) = take (b - a) (drop a s) @ take (c - b) (drop (b - a) (drop a s))"
    by (simp only: take_add)
  moreover from assms have "drop (b - a) (drop a s) = drop b s" by simp
  ultimately show ?thesis by (simp add: substring_def)
qed

lemma tokLoop_unparse:
  "lastIndex \<le> length line \<Longrightarrow> tokLoop line lastIndex parts = (j, parts') \<Longrightarrow>
   lastIndex \<le> j \<and> j \<le> length line \<and> search (drop j line) = None \<and>
   concat (map unparse parts') = concat (map unparse parts) @ substring line lastIndex j"
proof (induction line lastIndex parts rule: tokLoop.induct)
  case (1 line lastIndex parts)
  show ?case
  proof (cases "boldRegexExec line lastIndex")
    case None
    with "1.prems" show ?thesis
      by (simp add: tokLoop.simps [of line lastIndex] boldRegexExec_None substring_empty)
  next
    case (Some m)
    let ?n = "index m + length (match0 m)"
    let ?ps = "(if index m > lastIndex
              then parts @ [\<lparr>text' = substring line lastIndex (index m), bold = False\<rparr>]
              else parts) @ [\<lparr>text' = match1 m, bold = True\<rparr>]"
    from boldRegexExec_advances [OF Some] have adv: "lastIndex < ?n" "?n \<le> length line" .
    from "1.prems" Some have run: "tokLoop line ?n ?ps = (j, parts')"
      by (simp add: tokLoop.simps [of line lastIndex])
    from "1.IH" [OF Some adv(2) run]
    have ih: "?n \<le> j" "j \<le> length line" "search (drop j line) = None"
      "concat (map unparse parts') = concat (map unparse ?ps) @ substring line ?n j"
      by simp_all
    from boldRegexExec_Some [OF Some]
    have le: "lastIndex \<le> index m"
      and sp: "substring line lastIndex ?n = substring line lastIndex (index m) @ ''**'' @ match1 m @ ''**''"
      by simp_all
    have ps: "concat (map unparse ?ps) = concat (map unparse parts) @ substring line lastIndex ?n"
      using le sp by (auto simp: unparse_def substring_empty)
    have cat: "substring line lastIndex ?n @ substring line ?n j = substring line lastIndex j"
      using adv ih(1) by (intro substring_append) simp_all
    have "concat (map unparse parts') =
            (concat (map unparse parts) @ substring line lastIndex ?n) @ substring line ?n j"
      by (simp only: ih(4) ps)
    also have "\<dots> = concat (map unparse parts) @ substring line lastIndex j"
      by (simp only: append_assoc cat)
    finally have "concat (map unparse parts') = concat (map unparse parts) @ substring line lastIndex j" .
    moreover from adv ih(1) have "lastIndex \<le> j" by simp
    ultimately show ?thesis using ih(2,3) by simp
  qed
qed

lemma tokLoop_bold:
  "tokLoop line lastIndex parts = (j, parts') \<Longrightarrow>
   \<forall>p \<in> set parts. bold p \<longrightarrow> \<not> hasMarker (text' p) \<and> (\<forall>c \<in> set (text' p). \<not> isLineTerminator c) \<Longrightarrow>
   \<forall>p \<in> set parts'. bold p \<longrightarrow> \<not> hasMarker (text' p) \<and> (\<forall>c \<in> set (text' p). \<not> isLineTerminator c)"
proof (induction line lastIndex parts rule: tokLoop.induct)
  case (1 line lastIndex parts)
  show ?case
  proof (cases "boldRegexExec line lastIndex")
    case None
    with "1.prems" show ?thesis by (simp add: tokLoop.simps [of line lastIndex])
  next
    case (Some m)
    define ps where "ps = (if index m > lastIndex
              then parts @ [\<lparr>text' = substring line lastIndex (index m), bold = False\<rparr>]
              else parts) @ [\<lparr>text' = match1 m, bold = True\<rparr>]"
    from "1.prems"(1) Some have run: "tokLoop line (index m + length (match0 m)) ps = (j, parts')"
      by (simp add: tokLoop.simps [of line lastIndex] ps_def)
    from boldRegexExec_Some(3,4) [OF Some] "1.prems"(2)
    have "\<forall>p \<in> set ps. bold p \<longrightarrow> \<not> hasMarker (text' p) \<and> (\<forall>c \<in> set (text' p). \<not> isLineTerminator c)"
      by (auto simp: ps_def)
    with "1.IH" [OF Some run [unfolded ps_def]] show ?thesis by (simp add: ps_def)
  qed
qed

lemma substring_all: "substring s 0 (length s) = s"
  by (simp add: substring_def)

lemma tokenize_unparse: "concat (map unparse (tokenize line)) = line"
proof -
  obtain j parts where run: "tokLoop line 0 [] = (j, parts)" by (cases "tokLoop line 0 []")
  from tokLoop_unparse [OF _ run]
  have j: "j \<le> length line" and c: "concat (map unparse parts) = substring line 0 j" by simp_all
  show ?thesis
  proof (cases "j < length line")
    case True
    have "substring line 0 j @ substring line j (length line) = substring line 0 (length line)"
      using j by (intro substring_append) simp_all
    with True run c show ?thesis
      by (simp add: tokenize_def unparse_def substring_all)
  next
    case False
    with j have "j = length line" by simp
    with run c show ?thesis
      by (cases parts) (auto simp: tokenize_def unparse_def substring_all)
  qed
qed

lemma tokenize_bold:
  "\<forall>p \<in> set (tokenize line). bold p \<longrightarrow>
     \<not> hasMarker (text' p) \<and> (\<forall>c \<in> set (text' p). \<not> isLineTerminator c)"
proof -
  obtain j parts where run: "tokLoop line 0 [] = (j, parts)" by (cases "tokLoop line 0 []")
  from tokLoop_bold [OF run]
  have "\<forall>p \<in> set parts. bold p \<longrightarrow> \<not> hasMarker (text' p) \<and> (\<forall>c \<in> set (text' p). \<not> isLineTerminator c)"
    by simp
  with run show ?thesis by (auto simp: tokenize_def)
qed

lemma tokenize_no_match:
  assumes "search line = None"
  shows "tokenize line = [\<lparr>text' = line, bold = False\<rparr>]"
proof -
  from assms have "boldRegexExec line 0 = None" by (simp add: boldRegexExec_def)
  then have "tokLoop line 0 [] = (0, [])" by (simp add: tokLoop.simps [of line 0])
  then show ?thesis by (simp add: tokenize_def substring_all)
qed

subsection \<open>The tokenizer against the reading of the specification\<close>

lemma lazyClose_take: "lazyClose (take n s) = Some k \<Longrightarrow> lazyClose s = Some k"
proof (induction s arbitrary: n k rule: lazyClose.induct)
  case (1 c1 c2 cs)
  from "1.prems" obtain n' where n: "n = Suc (Suc n')"
    by (cases n; cases "n - 1") auto
  show ?case
  proof (cases "c1 = CHR ''*'' \<and> c2 = CHR ''*''")
    case True
    with "1.prems" n show ?thesis by simp
  next
    case False
    with "1.prems" n obtain k' where k: "k = Suc k'" and nt: "\<not> isLineTerminator c1"
      and l: "lazyClose (take (Suc n') (c2 # cs)) = Some k'"
      by (auto split: if_splits)
    from "1.IH" [OF False nt l] k False nt show ?thesis by auto
  qed
qed (auto simp: take_Cons' split: if_splits)

lemma matchAt_take: "matchAt (take n s) = Some k \<Longrightarrow> matchAt s = Some k"
proof (induction s rule: matchAt.induct)
  case (1 c1 c2 cs)
  from "1.prems" obtain n' where n: "n = Suc (Suc n')"
    by (cases n; cases "n - 1") auto
  with "1.prems" show ?case by (auto split: if_splits dest: lazyClose_take)
qed (auto simp: take_Cons' split: if_splits)

lemma search_take_None: "search s = Some (i, k) \<Longrightarrow> search (take i s) = None"
proof (induction s arbitrary: i)
  case Nil
  then show ?case by simp
next
  case (Cons c cs)
  show ?case
  proof (cases "matchAt (c # cs)")
    case (Some k')
    with Cons.prems have "i = 0" by auto
    then show ?thesis by simp
  next
    case None
    with Cons.prems obtain j where s: "search cs = Some (j, k)" and i: "i = Suc j" by auto
    have "matchAt (c # take j cs) = None"
    proof (cases "matchAt (c # take j cs)")
      case (Some k')
      then have "matchAt (take (Suc j) (c # cs)) = Some k'" by simp
      from matchAt_take [OF this] None show ?thesis by simp
    qed simp
    with Cons.IH [OF s] i show ?thesis by simp
  qed
qed

lemma boldRegexExec_SomeD:
  assumes "boldRegexExec line lastIndex = Some m"
  obtains i k where "search (drop lastIndex line) = Some (i, k)"
    and "index m = lastIndex + i"
    and "index m + length (match0 m) = lastIndex + i + k + 4"
    and "match1 m = take k (drop (i + 2) (drop lastIndex line))"
    and "substring line lastIndex (index m) = take i (drop lastIndex line)"
proof -
  from assms obtain i k where le: "lastIndex \<le> length line"
    and s: "search (drop lastIndex line) = Some (i, k)"
    and m: "m = \<lparr>index = lastIndex + i,
                 match0 = substring line (lastIndex + i) (lastIndex + i + k + 4),
                 match1 = substring line (lastIndex + i + 2) (lastIndex + i + 2 + k)\<rparr>"
    by (auto simp: boldRegexExec_def split: if_splits option.splits)
  from search_bound [OF s] le have b: "lastIndex + i + k + 4 \<le> length line" by simp
  with m have len: "length (match0 m) = k + 4" by (simp add: substring_def)
  show ?thesis
  proof (rule that [OF s])
    from m show "index m = lastIndex + i" by simp
    from m len show "index m + length (match0 m) = lastIndex + i + k + 4" by simp
    from m show "match1 m = take k (drop (i + 2) (drop lastIndex line))"
      by (simp add: substring_def ac_simps)
    from m show "substring line lastIndex (index m) = take i (drop lastIndex line)"
      by (simp add: substring_def)
  qed
qed

lemma tokLoop_strip:
  "lastIndex \<le> length line \<Longrightarrow> tokLoop line lastIndex parts = (j, parts') \<Longrightarrow>
   concat (map text' parts') @ drop j line =
     concat (map text' parts) @ stripPairs (drop lastIndex line)"
proof (induction line lastIndex parts rule: tokLoop.induct)
  case (1 line lastIndex parts)
  show ?case
  proof (cases "boldRegexExec line lastIndex")
    case None
    with "1.prems" have "search (drop lastIndex line) = None" by (simp add: boldRegexExec_None)
    then have "stripPairs (drop lastIndex line) = drop lastIndex line"
      by (simp add: stripPairs.simps [of "drop lastIndex line"])
    with None "1.prems" show ?thesis by (simp add: tokLoop.simps [of line lastIndex])
  next
    case (Some m)
    define r where "r = drop lastIndex line"
    define ps where "ps = (if index m > lastIndex
              then parts @ [\<lparr>text' = substring line lastIndex (index m), bold = False\<rparr>]
              else parts) @ [\<lparr>text' = match1 m, bold = True\<rparr>]"
    from boldRegexExec_SomeD [OF Some] obtain i k where s: "search r = Some (i, k)"
      and ix: "index m = lastIndex + i"
      and nx: "index m + length (match0 m) = lastIndex + i + k + 4"
      and m1: "match1 m = take k (drop (i + 2) r)"
      and pl: "substring line lastIndex (index m) = take i r"
      unfolding r_def by blast
    from boldRegexExec_advances [OF Some] have adv: "index m + length (match0 m) \<le> length line"
      by simp
    from "1.prems"(2) Some have run: "tokLoop line (index m + length (match0 m)) ps = (j, parts')"
      by (simp add: tokLoop.simps [of line lastIndex] ps_def)
    from "1.IH" [OF Some adv run [unfolded ps_def]]
    have ih: "concat (map text' parts') @ drop j line =
              concat (map text' ps) @ stripPairs (drop (index m + length (match0 m)) line)"
      by (simp add: ps_def)
    have "drop (index m + length (match0 m)) line = drop (i + k + 4) r"
      by (simp add: nx r_def ac_simps)
    moreover have "concat (map text' ps) = concat (map text' parts) @ take i r @ match1 m"
      using ix pl by (auto simp: ps_def)
    moreover have "stripPairs r = take i r @ match1 m @ stripPairs (drop (i + k + 4) r)"
      using s m1 by (simp add: stripPairs.simps [of r])
    ultimately show ?thesis using ih by (simp add: r_def)
  qed
qed

lemma tokLoop_plain:
  "tokLoop line lastIndex parts = (j, parts') \<Longrightarrow>
   \<forall>p \<in> set parts. \<not> bold p \<longrightarrow> search (text' p) = None \<Longrightarrow>
   \<forall>p \<in> set parts'. \<not> bold p \<longrightarrow> search (text' p) = None"
proof (induction line lastIndex parts rule: tokLoop.induct)
  case (1 line lastIndex parts)
  show ?case
  proof (cases "boldRegexExec line lastIndex")
    case None
    with "1.prems" show ?thesis by (simp add: tokLoop.simps [of line lastIndex])
  next
    case (Some m)
    define ps where "ps = (if index m > lastIndex
              then parts @ [\<lparr>text' = substring line lastIndex (index m), bold = False\<rparr>]
              else parts) @ [\<lparr>text' = match1 m, bold = True\<rparr>]"
    from "1.prems"(1) Some have run: "tokLoop line (index m + length (match0 m)) ps = (j, parts')"
      by (simp add: tokLoop.simps [of line lastIndex] ps_def)
    from boldRegexExec_SomeD [OF Some] obtain i k
      where s: "search (drop lastIndex line) = Some (i, k)"
      and pl: "substring line lastIndex (index m) = take i (drop lastIndex line)"
      by blast
    from search_take_None [OF s] pl have "search (substring line lastIndex (index m)) = None"
      by simp
    with "1.prems"(2) have "\<forall>p \<in> set ps. \<not> bold p \<longrightarrow> search (text' p) = None"
      by (auto simp: ps_def)
    with "1.IH" [OF Some run [unfolded ps_def]] show ?thesis by (simp add: ps_def)
  qed
qed

lemma tokenize_cases:
  obtains j parts where "tokLoop line 0 [] = (j, parts)" and "j \<le> length line"
    and "search (drop j line) = None"
    and "tokenize line =
           (if j < length line then parts @ [\<lparr>text' = drop j line, bold = False\<rparr>]
            else if parts = [] then [\<lparr>text' = [], bold = False\<rparr>] else parts)"
    and "\<not> j < length line \<Longrightarrow> parts = [] \<Longrightarrow> line = []"
proof -
  obtain j parts where run: "tokLoop line 0 [] = (j, parts)" by (cases "tokLoop line 0 []")
  from tokLoop_unparse [OF _ run]
  have j: "j \<le> length line" and n: "search (drop j line) = None"
    and c: "concat (map unparse parts) = substring line 0 j" by simp_all
  have e: "line = []" if "\<not> j < length line" "parts = []"
  proof -
    from that j have "j = length line" by simp
    with c that show ?thesis by (simp add: substring_def)
  qed
  show ?thesis
  proof (rule that [OF run j n _ e])
    show "tokenize line =
           (if j < length line then parts @ [\<lparr>text' = drop j line, bold = False\<rparr>]
            else if parts = [] then [\<lparr>text' = [], bold = False\<rparr>] else parts)"
      using run e by (auto simp: tokenize_def substring_def)
  qed
qed

lemma tokenize_strip: "concat (map text' (tokenize line)) = stripPairs line"
proof -
  obtain j parts where run: "tokLoop line 0 [] = (j, parts)" and j: "j \<le> length line"
    and t: "tokenize line =
           (if j < length line then parts @ [\<lparr>text' = drop j line, bold = False\<rparr>]
            else if parts = [] then [\<lparr>text' = [], bold = False\<rparr>] else parts)"
    by (rule tokenize_cases)
  from tokLoop_strip [OF _ run]
  have "concat (map text' parts) @ drop j line = stripPairs line" by simp
  with t j show ?thesis by (auto split: if_splits)
qed

lemma tokenize_plain:
  "\<forall>p \<in> set (tokenize line). \<not> bold p \<longrightarrow> search (text' p) = None"
proof -
  obtain j parts where run: "tokLoop line 0 [] = (j, parts)"
    and n: "search (drop j line) = None"
    and t: "tokenize line =
           (if j < length line then parts @ [\<lparr>text' = drop j line, bold = False\<rparr>]
            else if parts = [] then [\<lparr>text' = [], bold = False\<rparr>] else parts)"
    by (rule tokenize_cases)
  from tokLoop_plain [OF run]
  have "\<forall>p \<in> set parts. \<not> bold p \<longrightarrow> search (text' p) = None" by simp
  with t n show ?thesis by (auto split: if_splits)
qed

subsection \<open>The tokenizer's runs\<close>

text \<open>
  Claim C4.  The line \<open>a **b** c\<close> yields the three runs \<open>a \<close> (plain), \<open>b\<close> (emphasised)
  and \<open> c\<close> (plain), in this order; and a line in which the marker \<open>**\<close> does not occur
  yields a single plain run, the whole line.
\<close>

theorem tokenize_runs:
  "tokenize ''a **b** c'' =
     [\<lparr>text' = ''a '', bold = False\<rparr>, \<lparr>text' = ''b'', bold = True\<rparr>,
      \<lparr>text' = '' c'', bold = False\<rparr>] \<and>
   (\<not> (\<exists>u v. line = u @ ''**'' @ v) \<longrightarrow> tokenize line = [\<lparr>text' = line, bold = False\<rparr>])"
proof -
  have "tokenize ''a **b** c'' =
     [\<lparr>text' = ''a '', bold = False\<rparr>, \<lparr>text' = ''b'', bold = True\<rparr>,
      \<lparr>text' = '' c'', bold = False\<rparr>]"
    by code_simp
  moreover have "tokenize line = [\<lparr>text' = line, bold = False\<rparr>]"
    if "\<not> (\<exists>u v. line = u @ ''**'' @ v)"
    using that by (intro tokenize_no_match search_None_no_marker) (simp add: hasMarker_iff)
  ultimately show ?thesis by blast
qed

theorem tokenize_runs_witness:
  "\<not> (\<exists>u v. ''take 2 tablets'' = u @ ''**'' @ v) \<and>
   tokenize ''take 2 tablets'' = [\<lparr>text' = ''take 2 tablets'', bold = False\<rparr>]"
proof -
  have "\<not> hasMarker ''take 2 tablets''" by simp
  with hasMarker_iff [of "''take 2 tablets''"]
  have h: "\<not> (\<exists>u v. ''take 2 tablets'' = u @ ''**'' @ v)" by blast
  with tokenize_runs [of "''take 2 tablets''"] show ?thesis by blast
qed



subsection \<open>The file name\<close>

lemma splitOn_not_Nil: "splitOn c s \<noteq> []"
  by (induction s) (auto split: list.splits)

lemma hd_splitOn: "hd (splitOn c s) = takeWhile (\<lambda>x. x \<noteq> c) s"
  by (induction s) (auto simp: splitOn_not_Nil split: list.splits)

lemma sanitizedTitle_map:
  "sanitizedTitle t = map (\<lambda>c. if isAlnum c then c else CHR ''_'') (take 50 t)"
  by (simp add: sanitizedTitle_def substring_def take_map)

lemma save_in_export:
  "messages P \<noteq> [] \<Longrightarrow> Save (filename E (conversationTitle P)) \<in> set (exportToPDF E P)"
  by (simp add: exportToPDF_def Let_def)

text \<open>
  Claim C8.  The sanitised title is the title's first 50 characters, each character of
  \<open>[A-Za-z0-9]\<close> kept in its place and every other character replaced by \<open>_\<close>: it
  contains only characters of \<open>[A-Za-z0-9_]\<close> and is at most 50 long.  The file name is
  \<open>MedChat_\<close>, the sanitised title, \<open>_\<close>, the date part of the ISO time stamp and
  \<open>.pdf\<close>, and it is the name the export saves under.  The title \<open>My / Chat: Notes?\<close>
  becomes \<open>My___Chat__Notes_\<close>, and \<open>Room 101\<close> becomes \<open>Room_101\<close>.
\<close>

theorem filename_sanitized:
  "set (sanitizedTitle t)
     \<subseteq> set ''ABCDEFGHIJKLMNOPQRSTUVWXYZabcdefghijklmnopqrstuvwxyz0123456789_'' \<and>
   length (sanitizedTitle t) \<le> 50 \<and>
   length (sanitizedTitle t) = min 50 (length t) \<and>
   filename E t =
     ''MedChat_'' @ sanitizedTitle t @ ''_'' @ takeWhile (\<lambda>c. c \<noteq> CHR ''T'') (nowISO E) @ ''.pdf'' \<and>
   sanitizedTitle ''My / Chat: Notes?'' = ''My___Chat__Notes_'' \<and>
   (messages P \<noteq> [] \<longrightarrow> Save (filename E (conversationTitle P)) \<in> set (exportToPDF E P)) \<and>
   sanitizedTitle t =
     map (\<lambda>c. if c \<in> set ''ABCDEFGHIJKLMNOPQRSTUVWXYZabcdefghijklmnopqrstuvwxyz0123456789''
               then c else CHR ''_'')
       (take 50 t) \<and>
   sanitizedTitle ''Room 101'' = ''Room_101''"
proof -
  have "set (sanitizedTitle t)
     \<subseteq> set ''ABCDEFGHIJKLMNOPQRSTUVWXYZabcdefghijklmnopqrstuvwxyz0123456789_''"
    unfolding sanitizedTitle_map by (auto simp: isAlnum_def dest: in_set_takeD)
  moreover have "length (sanitizedTitle t) = min 50 (length t)"
    by (simp add: sanitizedTitle_map)
  moreover have "sanitizedTitle ''My / Chat: Notes?'' = ''My___Chat__Notes_''"
    by code_simp
  moreover have "sanitizedTitle ''Room 101'' = ''Room_101''"
    by code_simp
  moreover have "sanitizedTitle t =
     map (\<lambda>c. if c \<in> set ''ABCDEFGHIJKLMNOPQRSTUVWXYZabcdefghijklmnopqrstuvwxyz0123456789''
               then c else CHR ''_'')
       (take 50 t)"
    unfolding sanitizedTitle_map by (rule map_cong) (auto simp: isAlnum_def)
  ultimately show ?thesis
    using save_in_export [of P E] by (simp add: filename_def hd_splitOn)
qed

theorem filename_sanitized_witness:
  "messages demoProps \<noteq> [] \<and>
   Save ''MedChat_T_2024-01-15.pdf'' \<in> set (exportToPDF demoEnv demoProps)"
proof -
  have m: "messages demoProps \<noteq> []" by (simp add: demoProps_def)
  have f: "filename demoEnv (conversationTitle demoProps) = ''MedChat_T_2024-01-15.pdf''"
    by code_simp
  from filename_sanitized [where t = "''T''" and E = demoEnv and P = demoProps] m f
  show ?thesis by simp
qed

subsection \<open>The text drawn for one line\<close>

lemma drawnText_append: "drawnText (a @ b) = drawnText a @ drawnText b"
  by (simp add: drawnText_def)

lemma drawnText_checkNewPage: "drawnText (ops (fst (checkNewPage E h s))) = drawnText (ops s)"
  by (simp add: checkNewPage_def addPage_def emit_def drawnText_def)

lemma drawnText_drawParts:
  "drawnText (ops (drawParts E ps x s)) = drawnText (ops s) @ concat (map text' ps)"
  by (induction ps arbitrary: x s) (simp_all add: Let_def setFont_def emit_def drawnText_def)

lemma drawnText_flushLine:
  "drawnText (ops (flushLine E ps s)) = drawnText (ops s) @ concat (map text' ps)"
  by (simp add: flushLine_def Let_def advance_def drawnText_drawParts drawnText_checkNewPage)

lemma drawnText_packParts:
  "packParts E ps cur cps s = (cur', cps', s') \<Longrightarrow>
   drawnText (ops s') @ concat (map text' cps') =
     drawnText (ops s) @ concat (map text' cps) @ concat (map text' ps)"
proof (induction ps arbitrary: cur cps s)
  case Nil
  then show ?case by simp
next
  case (Cons p ps)
  let ?s = "setFont Normal s"
  have n: "drawnText (ops ?s) = drawnText (ops s)"
    by (simp add: setFont_def emit_def drawnText_def)
  show ?case
  proof (cases "getTextWidth E ?s (cur @ text' p) > maxWidth E - 6")
    case True
    with Cons.prems have "packParts E ps (text' p) [p] (flushLine E cps ?s) = (cur', cps', s')"
      by (simp add: Let_def)
    from Cons.IH [OF this] show ?thesis by (simp add: drawnText_flushLine n)
  next
    case False
    with Cons.prems have "packParts E ps (cur @ text' p) (cps @ [p]) ?s = (cur', cps', s')"
      by (simp add: Let_def)
    from Cons.IH [OF this] show ?thesis by (simp add: n)
  qed
qed

lemma drawnText_renderLine:
  "drawnText (ops (renderLine E line s)) =
     drawnText (ops s) @ (if trim line = [] then [] else concat (map text' (tokenize line)))"
proof (cases "trim line = []")
  case True
  then show ?thesis by (simp add: renderLine_def advance_def drawnText_checkNewPage)
next
  case False
  obtain cur cps s' where r: "packParts E (tokenize line) [] [] s = (cur, cps, s')"
    by (cases "packParts E (tokenize line) [] [] s") auto
  from drawnText_packParts [OF r] False r show ?thesis
    by (simp add: renderLine_def drawnText_flushLine)
qed

text \<open>
  Claim C3, as the code has it.  The text drawn for a logical line, concatenated over its
  visual lines in drawing order, is the concatenation of the tokenizer's runs, each drawn
  once; a blank line draws nothing.  The runs are the line without the delimiters of every
  complete pair of markers, as \<open>stripPairs\<close> reads the specification: written back with
  the stars around the emphasised runs they give the line again, an emphasised run holds
  no marker and a plain run holds no complete pair.  So a line that is not blank is drawn
  as \<open>stripPairs\<close> of it, \<open>**a** and **b**\<close> as \<open>a and b\<close>, and a line that is not blank
  and has no complete pair is reproduced exactly.
\<close>

theorem wrap_reproduces_runs:
  "drawnText (ops (renderLine E line s)) =
     drawnText (ops s) @ (if trim line = [] then [] else concat (map text' (tokenize line))) \<and>
   concat (map unparse (tokenize line)) = line \<and>
   (trim line \<noteq> [] \<and> search line = None \<longrightarrow>
      drawnText (ops (renderLine E line s)) = drawnText (ops s) @ line) \<and>
   concat (map text' (tokenize line)) = stripPairs line \<and>
   (\<forall>p \<in> set (tokenize line).
      if bold p then \<not> hasMarker (text' p) else search (text' p) = None) \<and>
   (trim line \<noteq> [] \<longrightarrow>
      drawnText (ops (renderLine E line s)) = drawnText (ops s) @ stripPairs line) \<and>
   drawnText (ops (renderLine E ''**a** and **b**'' s)) = drawnText (ops s) @ ''a and b''"
proof -
  have ex: "drawnText (ops (renderLine E ''**a** and **b**'' s)) = drawnText (ops s) @ ''a and b''"
  proof -
    have "trim ''**a** and **b**'' \<noteq> []" by code_simp
    moreover have "stripPairs ''**a** and **b**'' = ''a and b''" by code_simp
    ultimately show ?thesis
      using drawnText_renderLine [of E "''**a** and **b**''" s]
      by (simp only: tokenize_strip if_False)
  qed
  have runs: "\<forall>p \<in> set (tokenize line).
      if bold p then \<not> hasMarker (text' p) else search (text' p) = None"
    using tokenize_bold [of line] tokenize_plain [of line] by auto
  have strip: "drawnText (ops (renderLine E line s)) = drawnText (ops s) @ stripPairs line"
    if "trim line \<noteq> []"
    using that drawnText_renderLine [of E line s] by (simp add: tokenize_strip)
  have plain: "drawnText (ops (renderLine E line s)) = drawnText (ops s) @ line"
    if "trim line \<noteq> []" "search line = None"
    using that drawnText_renderLine [of E line s] tokenize_no_match [of line] by simp
  from drawnText_renderLine [of E line s] tokenize_unparse [of line] tokenize_strip [of line]
    runs strip plain ex
  show ?thesis by blast
qed

theorem wrap_reproduces_runs_witness:
  "trim longLine \<noteq> [] \<and>
   yPosition (renderLine demoEnv longLine (setFontSize 10 newDoc)) =
     yPosition (setFontSize 10 newDoc) + 12 \<and>
   drawnText (ops (renderLine demoEnv longLine (setFontSize 10 newDoc))) =
     replicate 50 CHR ''a'' @ replicate 50 CHR ''b'' @ '' c **d'' \<and>
   list_all (\<lambda>p. if bold p then \<not> hasMarker (text' p) else search (text' p) = None)
     (tokenize longLine) \<and>
   trim ''dose: **5 mg'' \<noteq> [] \<and> search ''dose: **5 mg'' = None \<and>
   drawnText (ops (renderLine demoEnv ''dose: **5 mg'' newDoc)) = ''dose: **5 mg''"
proof -
  let ?s = "setFontSize 10 newDoc"
  have a: "trim ''dose: **5 mg'' \<noteq> []" by code_simp
  have b: "search ''dose: **5 mg'' = None" by code_simp
  have c: "drawnText (ops newDoc) = []" by (simp add: newDoc_def drawnText_def)
  have d: "trim longLine \<noteq> []" by code_simp
  have e: "stripPairs longLine = replicate 50 CHR ''a'' @ replicate 50 CHR ''b'' @ '' c **d''"
    by code_simp
  have f: "drawnText (ops ?s) = []"
    by (simp add: newDoc_def drawnText_def setFontSize_def emit_def)
  have g: "yPosition (renderLine demoEnv longLine ?s) = yPosition ?s + 12" by code_simp
  note w = wrap_reproduces_runs [of demoEnv "''dose: **5 mg''" newDoc]
  note v = wrap_reproduces_runs [of demoEnv longLine ?s]
  from w a b
  have "drawnText (ops (renderLine demoEnv ''dose: **5 mg'' newDoc)) =
          drawnText (ops newDoc) @ ''dose: **5 mg''" by blast
  then have h: "drawnText (ops (renderLine demoEnv ''dose: **5 mg'' newDoc)) = ''dose: **5 mg''"
    by (simp only: c append_Nil)
  from v d
  have "drawnText (ops (renderLine demoEnv longLine ?s)) = drawnText (ops ?s) @ stripPairs longLine"
    by blast
  then have i: "drawnText (ops (renderLine demoEnv longLine ?s)) =
      replicate 50 CHR ''a'' @ replicate 50 CHR ''b'' @ '' c **d''"
    by (simp only: e f append_Nil)
  from v have "\<forall>p \<in> set (tokenize longLine).
      if bold p then \<not> hasMarker (text' p) else search (text' p) = None" by blast
  then have j: "list_all (\<lambda>p. if bold p then \<not> hasMarker (text' p) else search (text' p) = None)
     (tokenize longLine)" by (simp only: list_all_iff)
  from a b d g h i j show ?thesis by blast
qed

text \<open>
  Claim C3 as stated fails where a line has a complete pair of markers: the four stars of
  \<open>a **b** c\<close> are not drawn.
\<close>

theorem wrap_drops_markers:
  "drawnText (ops (renderLine demoEnv ''a **b** c'' newDoc)) = ''a b c'' \<and>
   drawnText (ops (renderLine demoEnv ''a **b** c'' newDoc)) \<noteq> ''a **b** c''"
  by code_simp

subsection \<open>The time stamp of a message\<close>

lemma drawnText_header_ops:
  "drawnText (ops (renderMessageHeader E P m s)) =
     drawnText (ops s) @ senderName P m @
     (if createdAt m = None \<or> createdAt m = Some [] then []
      else toLocaleString E (the (createdAt m)))"
  by (auto simp: renderMessageHeader_def Let_def advance_def emit_def setFont_def setFontSize_def
      drawnText_append formatDate_def
      drawnText_checkNewPage [unfolded drawnText_def] drawnText_def)

text \<open>
  Claim C7, as the code has it.  The header of a message draws the sender's name, and
  after it the formatted \<open>createdAt\<close> only when \<open>createdAt\<close> is present and not empty.
  For a message without \<open>createdAt\<close> no time is drawn.
\<close>

theorem timestamp_only_when_present:
  "drawnText (ops (renderMessageHeader E P m s)) =
     drawnText (ops s) @ senderName P m @
     (if createdAt m = None \<or> createdAt m = Some [] then [] else formatDate E (createdAt m))"
  by (auto simp: drawnText_header_ops formatDate_def)

theorem timestamp_only_when_present_witness:
  "drawnText (ops (renderMessageHeader demoEnv demoProps demoMessage newDoc)) = ''User'' \<and>
   drawnText (ops (renderMessageHeader demoEnv demoProps
      (demoMessage\<lparr>createdAt := Some ''2024-01-15T10:00:00Z''\<rparr>) newDoc))
     = ''UserJan 15, 2024, 10:00 AM''"
  using timestamp_only_when_present [of demoEnv demoProps demoMessage newDoc]
    timestamp_only_when_present [of demoEnv demoProps
      "demoMessage\<lparr>createdAt := Some ''2024-01-15T10:00:00Z''\<rparr>" newDoc]
  by (simp add: demoMessage_def demoProps_def demoEnv_def newDoc_def senderName_def
      drawnText_def formatDate_def)

text \<open>
  Claim C7 as stated fails: for a message without \<open>createdAt\<close> the header consists of
  the band and the sender's name; the export moment, which \<open>formatDate\<close> would give, is
  not drawn.
\<close>

theorem no_timestamp_without_createdAt:
  "createdAt demoMessage = None \<and>
   formatDate demoEnv (createdAt demoMessage) = ''1/15/2024'' \<and>
   ops (renderMessageHeader demoEnv demoProps demoMessage newDoc) =
     [SetFillColor 240 248 255, RoundedRect 15 15 180 8 2 2 ''F'', SetFontSize 10,
      SetFont ''helvetica'' Bold, SetTextColor 41 98 255, Text ''User'' 18 (41 / 2)]"
  by code_simp

subsection \<open>Citations\<close>

lemma renderMessage_citations:
  "sameButCitations m m' \<Longrightarrow> userName P' = userName P \<Longrightarrow>
   renderMessage E P' m' s = renderMessage E P m s"
  by (simp add: sameButCitations_def renderMessage_def renderMessageHeader_def
      renderContent_def renderReferences_def senderName_def cong: if_cong)

lemma fold_renderMessage_citations:
  "list_all2 sameButCitations ms ms' \<Longrightarrow> userName P' = userName P \<Longrightarrow>
   fold (renderMessage E P') ms' s = fold (renderMessage E P) ms s"
proof (induction ms ms' arbitrary: s rule: list_all2_induct)
  case Nil
  show ?case by simp
next
  case (Cons m ms m' ms')
  then show ?case by (simp add: renderMessage_citations)
qed

text \<open>
  Claim C9.  Two requests with the same title and user name whose messages differ at most
  in their \<open>citations\<close> have the same export: the same calls on the document, the same
  file name, the same toasts.
\<close>

theorem export_ignores_citations:
  assumes "conversationTitle P' = conversationTitle P"
    and "userName P' = userName P"
    and "list_all2 sameButCitations (messages P) (messages P')"
  shows "exportToPDF E P' = exportToPDF E P"
proof -
  from assms(3) have len: "length (messages P') = length (messages P)"
    by (simp add: list_all2_lengthD)
  have "renderHeader E P' newDoc = renderHeader E P newDoc"
    using assms(1) by (simp add: renderHeader_def)
  with fold_renderMessage_citations [OF assms(3,2)]
  have "layoutPass E P' = layoutPass E P" by (simp add: layoutPass_def)
  with len assms(1) show ?thesis by (simp add: exportToPDF_def)
qed

theorem export_ignores_citations_witness:
  "list_all2 sameButCitations (messages demoProps)
     (messages (demoProps\<lparr>messages := [demoMessage\<lparr>citations := Some [''https://x'']\<rparr>]\<rparr>)) \<and>
   exportToPDF demoEnv (demoProps\<lparr>messages := [demoMessage\<lparr>citations := Some [''https://x'']\<rparr>]\<rparr>)
     = exportToPDF demoEnv demoProps"
proof -
  let ?P = "demoProps\<lparr>messages := [demoMessage\<lparr>citations := Some [''https://x'']\<rparr>]\<rparr>"
  have h: "list_all2 sameButCitations (messages demoProps) (messages ?P)"
    by (simp add: demoProps_def sameButCitations_def)
  from export_ignores_citations [of ?P demoProps demoEnv, OF _ _ h] h show ?thesis by simp
qed

subsection \<open>The cursor and the bottom bound\<close>

lemma check_room:
  assumes "margin + h \<le> usableBottom E"
  shows "yPosition (fst (checkNewPage E h s)) + h \<le> usableBottom E"
  using assms by (simp add: checkNewPage_def usableBottom_def addPage_def emit_def)

lemma check_inBound:
  "list_all (inBound b) (ops (fst (checkNewPage E h s))) = list_all (inBound b) (ops s)"
  by (simp add: checkNewPage_def addPage_def emit_def)

lemma drawParts_yPosition: "yPosition (drawParts E ps x s) = yPosition s"
  by (induction ps arbitrary: x s) (simp_all add: Let_def setFont_def emit_def)

lemma drawParts_inBound:
  "list_all (inBound b) (ops s) \<Longrightarrow> yPosition s \<le> b \<Longrightarrow>
   list_all (inBound b) (ops (drawParts E ps x s))"
  by (induction ps arbitrary: x s) (simp_all add: Let_def setFont_def emit_def)

lemma flushLine_inBound:
  assumes "margin + 6 \<le> usableBottom E" and "list_all (inBound (usableBottom E)) (ops s)"
  shows "list_all (inBound (usableBottom E)) (ops (flushLine E ps s))"
proof (cases "length ps > 0")
  case True
  let ?s = "fst (checkNewPage E 6 s)"
  from check_room [OF assms(1), of s] have "yPosition ?s \<le> usableBottom E" by simp
  moreover from assms(2) have "list_all (inBound (usableBottom E)) (ops ?s)"
    by (simp add: check_inBound)
  ultimately have "list_all (inBound (usableBottom E)) (ops (drawParts E ps (margin + 3) ?s))"
    by (intro drawParts_inBound)
  with True show ?thesis by (simp add: flushLine_def Let_def advance_def)
next
  case False
  with assms(2) show ?thesis by (simp add: flushLine_def)
qed

lemma packParts_inBound:
  assumes "margin + 6 \<le> usableBottom E"
  shows "list_all (inBound (usableBottom E)) (ops s) \<Longrightarrow>
         list_all (inBound (usableBottom E)) (ops (snd (snd (packParts E ps cur cps s))))"
proof (induction ps arbitrary: cur cps s)
  case Nil
  then show ?case by simp
next
  case (Cons p ps)
  let ?s = "setFont Normal s"
  from Cons.prems have n: "list_all (inBound (usableBottom E)) (ops ?s)"
    by (simp add: setFont_def emit_def)
  from flushLine_inBound [OF assms n]
  have f: "list_all (inBound (usableBottom E)) (ops (flushLine E cps ?s))" .
  from Cons.IH [OF n] Cons.IH [OF f] show ?case by (simp add: Let_def)
qed

lemma renderLine_inBound:
  assumes "margin + 6 \<le> usableBottom E" and "list_all (inBound (usableBottom E)) (ops s)"
  shows "list_all (inBound (usableBottom E)) (ops (renderLine E line s))"
proof (cases "trim line = []")
  case True
  with assms(2) show ?thesis by (simp add: renderLine_def advance_def check_inBound)
next
  case False
  obtain cur cps s' where r: "packParts E (tokenize line) [] [] s = (cur, cps, s')"
    by (cases "packParts E (tokenize line) [] [] s") auto
  from packParts_inBound [OF assms, of "tokenize line" "[]" "[]"] r
  have "list_all (inBound (usableBottom E)) (ops s')" by simp
  from flushLine_inBound [OF assms(1) this] False r show ?thesis by (simp add: renderLine_def)
qed

lemma renderLines_inBound:
  assumes "margin + 6 \<le> usableBottom E"
  shows "list_all (inBound (usableBottom E)) (ops s) \<Longrightarrow>
         list_all (inBound (usableBottom E)) (ops (fold (renderLine E) ls s))"
  by (induction ls arbitrary: s) (simp_all add: renderLine_inBound [OF assms])

lemma renderContent_inBound:
  assumes "margin + 6 \<le> usableBottom E" and "list_all (inBound (usableBottom E)) (ops s)"
  shows "list_all (inBound (usableBottom E)) (ops (renderContent E m s))"
proof -
  from assms(2)
  have "list_all (inBound (usableBottom E)) (ops (setFontSize 10 (emit (SetTextColor 0 0 0) s)))"
    by (simp add: setFontSize_def emit_def)
  from renderLines_inBound [OF assms(1) this] show ?thesis
    by (simp add: renderContent_def Let_def advance_def)
qed

lemma renderMessageHeader_inBound:
  assumes "margin + 15 \<le> usableBottom E" and "list_all (inBound (usableBottom E)) (ops s)"
  shows "list_all (inBound (usableBottom E)) (ops (renderMessageHeader E P m s))"
proof -
  let ?s = "fst (checkNewPage E 15 s)"
  from check_room [OF assms(1), of s] have "yPosition ?s + 15 \<le> usableBottom E" .
  moreover from assms(2) have "list_all (inBound (usableBottom E)) (ops ?s)"
    by (simp add: check_inBound)
  ultimately show ?thesis
    by (simp add: renderMessageHeader_def Let_def advance_def emit_def setFont_def setFontSize_def)
qed

lemma renderTitleLines_inBound:
  assumes "margin + 5 \<le> usableBottom E"
  shows "list_all (inBound (usableBottom E)) (ops s) \<Longrightarrow>
         list_all (inBound (usableBottom E)) (ops (renderTitleLines E ls s))"
proof (induction ls arbitrary: s)
  case Nil
  then show ?case by simp
next
  case (Cons l ls)
  let ?s = "fst (checkNewPage E 5 s)"
  from check_room [OF assms, of s] have "yPosition ?s \<le> usableBottom E" by simp
  moreover from Cons.prems have "list_all (inBound (usableBottom E)) (ops ?s)"
    by (simp add: check_inBound)
  ultimately have
    "list_all (inBound (usableBottom E)) (ops (advance 5 (emit (Text l (margin + 6) (yPosition ?s)) ?s)))"
    by (simp add: advance_def emit_def)
  from Cons.IH [OF this] show ?case by (simp add: Let_def)
qed

lemma renderResults_inBound:
  assumes "margin + 5 \<le> usableBottom E"
  shows "list_all (inBound (usableBottom E)) (ops s) \<Longrightarrow>
         list_all (inBound (usableBottom E)) (ops (renderResults E rs idx s))"
proof (induction rs arbitrary: idx s)
  case Nil
  then show ?case by simp
next
  case (Cons r rs)
  define s1 where "s1 = emit (SetTextColor 0 0 0) (setFontSize 9 (setFont Bold (fst (checkNewPage E 12 s))))"
  define s2 where "s2 = renderTitleLines E (wrapText E (showNat (idx + 1) @ ''. '' @ title r) (maxWidth E - 10) 9) s1"
  define s3 where "s3 = fst (checkNewPage E 4 (emit (SetTextColor 41 98 255) (setFontSize 8 (setFont Normal s2))))"
  define s4 where "s4 = advance 5 (emit (TextWithLink (url r) (margin + 6) (yPosition s3) (url r)) s3)"
  from Cons.prems have "list_all (inBound (usableBottom E)) (ops s1)"
    by (simp add: s1_def emit_def setFontSize_def setFont_def check_inBound)
  from renderTitleLines_inBound [OF assms this]
  have "list_all (inBound (usableBottom E)) (ops s2)" by (simp add: s2_def)
  then have "list_all (inBound (usableBottom E)) (ops s3)"
    by (simp add: s3_def check_inBound emit_def setFontSize_def setFont_def)
  moreover from assms have "margin + 4 \<le> usableBottom E" by simp
  from check_room [OF this] have "yPosition s3 \<le> usableBottom E"
    unfolding s3_def by (smt (verit))
  ultimately have "list_all (inBound (usableBottom E)) (ops s4)"
    by (simp add: s4_def advance_def emit_def)
  from Cons.IH [OF this] show ?case
    by (simp add: Let_def s1_def s2_def s3_def s4_def)
qed

lemma renderReferences_inBound:
  assumes "margin + 10 \<le> usableBottom E" and "list_all (inBound (usableBottom E)) (ops s)"
  shows "list_all (inBound (usableBottom E)) (ops (renderReferences E m s))"
proof (cases "searchResults m")
  case None
  with assms(2) show ?thesis by (simp add: renderReferences_def)
next
  case (Some rs)
  show ?thesis
  proof (cases "length rs > 0")
    case False
    with Some assms(2) show ?thesis by (simp add: renderReferences_def)
  next
    case True
    let ?s = "fst (checkNewPage E 10 s)"
    define s1 where "s1 = advance 6 (emit (Text ''References:'' (margin + 3) (yPosition ?s))
        (emit (SetTextColor 70 70 70) (setFont Bold (setFontSize 9 ?s))))"
    from check_room [OF assms(1), of s] have "yPosition ?s \<le> usableBottom E" by simp
    moreover from assms(2) have "list_all (inBound (usableBottom E)) (ops ?s)"
      by (simp add: check_inBound)
    ultimately have "list_all (inBound (usableBottom E)) (ops s1)"
      by (simp add: s1_def advance_def emit_def setFont_def setFontSize_def)
    moreover from assms(1) have "margin + 5 \<le> usableBottom E" by simp
    ultimately have "list_all (inBound (usableBottom E)) (ops (renderResults E rs 0 s1))"
      by (intro renderResults_inBound)
    with Some True show ?thesis
      by (simp add: renderReferences_def Let_def advance_def s1_def setFont_def setFontSize_def emit_def)
  qed
qed

lemma renderMessage_inBound:
  assumes "margin + 15 \<le> usableBottom E" and "list_all (inBound (usableBottom E)) (ops s)"
  shows "list_all (inBound (usableBottom E)) (ops (renderMessage E P m s))"
proof -
  from assms(1) have a6: "margin + 6 \<le> usableBottom E" and a10: "margin + 10 \<le> usableBottom E"
    by simp_all
  from renderMessageHeader_inBound [OF assms]
  have "list_all (inBound (usableBottom E)) (ops (renderMessageHeader E P m s))" .
  from renderContent_inBound [OF a6 this]
  have "list_all (inBound (usableBottom E)) (ops (renderContent E m (renderMessageHeader E P m s)))" .
  from renderReferences_inBound [OF a10 this] show ?thesis
    by (simp add: renderMessage_def Let_def advance_def)
qed

lemma renderMessages_inBound:
  assumes "margin + 15 \<le> usableBottom E"
  shows "list_all (inBound (usableBottom E)) (ops s) \<Longrightarrow>
         list_all (inBound (usableBottom E)) (ops (fold (renderMessage E P) ms s))"
  by (induction ms arbitrary: s) (simp_all add: renderMessage_inBound [OF assms])

lemma renderHeader_inBound:
  assumes "35 \<le> usableBottom E"
  shows "list_all (inBound (usableBottom E)) (ops (renderHeader E P newDoc))"
  using assms
  by (simp add: renderHeader_def newDoc_def Let_def emit_def setFont_def setFontSize_def margin_def)

text \<open>
  Claim C6, as the code has it.  A page break resets the cursor to the top margin and adds
  one page.  After a space check for a block of height \<open>h\<close> that fits on an empty page,
  the cursor plus \<open>h\<close> is within the usable bottom bound.  Every call of the layout pass
  that draws is made after such a check: on a page at least 60 high, every text and every
  band of the layout pass ends at or above the bound.  The cursor itself is not bounded:
  the advances that follow the content and the references of a message are not checked.
\<close>

theorem draws_within_bound:
  "(snd (checkNewPage E h s) \<longrightarrow>
      yPosition (fst (checkNewPage E h s)) = margin \<and>
      pages (fst (checkNewPage E h s)) = Suc (pages s)) \<and>
   (margin + h \<le> usableBottom E \<longrightarrow>
      yPosition (fst (checkNewPage E h s)) + h \<le> usableBottom E) \<and>
   (60 \<le> pageHeight E \<longrightarrow> list_all (inBound (usableBottom E)) (ops (layoutPass E P)))"
proof -
  have "list_all (inBound (usableBottom E)) (ops (layoutPass E P))" if "60 \<le> pageHeight E"
  proof -
    from that have a: "35 \<le> usableBottom E" and b: "margin + 15 \<le> usableBottom E"
      by (simp_all add: usableBottom_def margin_def)
    from renderMessages_inBound [OF b renderHeader_inBound [OF a]] show ?thesis
      by (simp add: layoutPass_def)
  qed
  moreover have "yPosition (fst (checkNewPage E h s)) + h \<le> usableBottom E"
    if "margin + h \<le> usableBottom E"
    using that by (rule check_room)
  ultimately show ?thesis
    by (simp add: checkNewPage_def addPage_def emit_def)
qed

theorem draws_within_bound_witness:
  "snd (checkNewPage demoEnv 15 (newDoc\<lparr>yPosition := 260\<rparr>)) \<and>
   margin + 15 \<le> usableBottom demoEnv \<and>
   60 \<le> pageHeight demoEnv \<and>
   yPosition (fst (checkNewPage demoEnv 15 (newDoc\<lparr>yPosition := 260\<rparr>))) = margin \<and>
   pages (fst (checkNewPage demoEnv 15 (newDoc\<lparr>yPosition := 260\<rparr>))) = 2 \<and>
   yPosition (fst (checkNewPage demoEnv 15 (newDoc\<lparr>yPosition := 260\<rparr>))) + 15
     \<le> usableBottom demoEnv \<and>
   pages (layoutPass demoEnv twoPageProps) = 2 \<and>
   list_all (inBound (usableBottom demoEnv)) (ops (layoutPass demoEnv twoPageProps))"
proof -
  have a: "snd (checkNewPage demoEnv 15 (newDoc\<lparr>yPosition := 260\<rparr>))"
    by (simp add: checkNewPage_def demoEnv_def newDoc_def margin_def)
  have b: "margin + 15 \<le> usableBottom demoEnv"
    by (simp add: usableBottom_def demoEnv_def margin_def)
  have c: "60 \<le> pageHeight demoEnv" by (simp add: demoEnv_def)
  have d: "pages (newDoc\<lparr>yPosition := 260\<rparr>) = 1" by (simp add: newDoc_def)
  have e: "pages (layoutPass demoEnv twoPageProps) = 2" by code_simp
  from draws_within_bound [of demoEnv 15 "newDoc\<lparr>yPosition := 260\<rparr>" twoPageProps] a b c d e
  show ?thesis by simp
qed

text \<open>
  Claim C6 as stated fails: after a single message of 44 empty lines on an A4 page the
  cursor is 280, beyond the bound 272, and no page break has taken place.
\<close>

theorem cursor_passes_bound:
  "yPosition (layoutPass demoEnv blankLinesProps) = 280 \<and>
   pages (layoutPass demoEnv blankLinesProps) = 1 \<and>
   usableBottom demoEnv = 272 \<and>
   AddPage \<notin> set (ops (layoutPass demoEnv blankLinesProps))"
  by code_simp

subsection \<open>The width that decides a line break\<close>

lemma eraseXs_eq_iff:
  "eraseXs s' = eraseXs s \<longleftrightarrow>
     yPosition s' = yPosition s \<and> fontStyle s' = fontStyle s \<and> fontSize s' = fontSize s \<and>
     pages s' = pages s \<and> map eraseX (ops s') = map eraseX (ops s)"
  by (cases s; cases s') (auto simp: eraseXs_def)

lemma eraseXs_checkNewPage:
  "pageHeight E' = pageHeight E \<Longrightarrow> eraseXs s' = eraseXs s \<Longrightarrow>
   eraseXs (fst (checkNewPage E' h s')) = eraseXs (fst (checkNewPage E h s))"
  by (simp add: eraseXs_eq_iff checkNewPage_def addPage_def emit_def)

lemma eraseXs_drawParts:
  "eraseXs s' = eraseXs s \<Longrightarrow>
   eraseXs (drawParts E' ps x' s') = eraseXs (drawParts E ps x s)"
proof (induction ps arbitrary: x x' s s')
  case Nil
  then show ?case by simp
next
  case (Cons p ps)
  let ?f = "if bold p then Bold else Normal"
  from Cons.prems
  have "eraseXs (emit (Text (text' p) x' (yPosition (setFont ?f s'))) (setFont ?f s')) =
        eraseXs (emit (Text (text' p) x (yPosition (setFont ?f s))) (setFont ?f s))"
    by (simp add: eraseXs_eq_iff setFont_def emit_def)
  from Cons.IH [OF this] show ?case by (simp add: Let_def)
qed

lemma eraseXs_flushLine:
  assumes "pageHeight E' = pageHeight E" and "eraseXs s' = eraseXs s"
  shows "eraseXs (flushLine E' ps s') = eraseXs (flushLine E ps s)"
proof (cases "length ps > 0")
  case True
  from eraseXs_drawParts [OF eraseXs_checkNewPage [OF assms], of E' ps "margin + 3" 6 E "margin + 3"]
  have "eraseXs (advance 6 (drawParts E' ps (margin + 3) (fst (checkNewPage E' 6 s')))) =
        eraseXs (advance 6 (drawParts E ps (margin + 3) (fst (checkNewPage E 6 s))))"
    by (simp add: eraseXs_eq_iff advance_def)
  with True show ?thesis by (simp add: flushLine_def Let_def)
next
  case False
  with assms(2) show ?thesis by (simp add: flushLine_def)
qed

lemma eraseXs_packParts:
  assumes "textWidth E' Normal = textWidth E Normal"
    and "pageWidth E' = pageWidth E" and "pageHeight E' = pageHeight E"
  shows "eraseXs s' = eraseXs s \<Longrightarrow>
         fst (packParts E' ps cur cps s') = fst (packParts E ps cur cps s) \<and>
         fst (snd (packParts E' ps cur cps s')) = fst (snd (packParts E ps cur cps s)) \<and>
         eraseXs (snd (snd (packParts E' ps cur cps s'))) =
           eraseXs (snd (snd (packParts E ps cur cps s)))"
proof (induction ps arbitrary: cur cps s s')
  case Nil
  then show ?case by simp
next
  case (Cons p ps)
  from Cons.prems have n: "eraseXs (setFont Normal s') = eraseXs (setFont Normal s)"
    by (simp add: eraseXs_eq_iff setFont_def emit_def)
  from Cons.prems have "fontSize s' = fontSize s" by (simp add: eraseXs_eq_iff)
  with assms(1)
  have w: "getTextWidth E' (setFont Normal s') (cur @ text' p) =
           getTextWidth E (setFont Normal s) (cur @ text' p)"
    by (simp add: getTextWidth_def setFont_def emit_def)
  from assms(2) have m: "maxWidth E' = maxWidth E" by (simp add: maxWidth_def)
  show ?case
  proof (cases "getTextWidth E (setFont Normal s) (cur @ text' p) > maxWidth E - 6")
    case True
    have f: "eraseXs (flushLine E' cps (setFont Normal s')) =
             eraseXs (flushLine E cps (setFont Normal s))"
      by (rule eraseXs_flushLine [OF assms(3) n])
    from Cons.IH [OF f, of "text' p" "[p]"] True w m show ?thesis by (simp add: Let_def)
  next
    case False
    from Cons.IH [OF n, of "cur @ text' p" "cps @ [p]"] False w m show ?thesis
      by (simp add: Let_def)
  qed
qed

lemma eraseXs_renderLine:
  assumes "textWidth E' Normal = textWidth E Normal"
    and "pageWidth E' = pageWidth E" and "pageHeight E' = pageHeight E"
    and "eraseXs s' = eraseXs s"
  shows "eraseXs (renderLine E' line s') = eraseXs (renderLine E line s)"
proof (cases "trim line = []")
  case True
  from eraseXs_checkNewPage [OF assms(3,4), of 5]
  have "eraseXs (advance 5 (fst (checkNewPage E' 5 s'))) =
        eraseXs (advance 5 (fst (checkNewPage E 5 s)))"
    by (simp add: eraseXs_eq_iff advance_def)
  with True show ?thesis by (simp add: renderLine_def)
next
  case False
  obtain c cp t where r: "packParts E (tokenize line) [] [] s = (c, cp, t)"
    by (cases "packParts E (tokenize line) [] [] s") auto
  obtain c' cp' t' where r': "packParts E' (tokenize line) [] [] s' = (c', cp', t')"
    by (cases "packParts E' (tokenize line) [] [] s'") auto
  from eraseXs_packParts [OF assms, of "tokenize line" "[]" "[]"] r r'
  have "cp' = cp" and "eraseXs t' = eraseXs t" by simp_all
  with eraseXs_flushLine [OF assms(3), of t' t cp] False r r' show ?thesis
    by (simp add: renderLine_def)
qed

text \<open>
  Claim C5, as the code has it.  The width compared with \<open>maxWidth - 6\<close> is the width of
  the accumulated text followed by the next run, measured in the normal face at the
  current size, whether the run is emphasised or not.  The widths of the bold face do not
  enter the decision: under two fonts with the same normal face, on the same page, a line
  is laid out with the same line breaks, page breaks and cursor; only the horizontal
  positions of the runs within a visual line can differ.
\<close>

theorem overflow_measured_plain:
  "packParts E (p # ps) cur cps s =
     (if textWidth E Normal (fontSize s) (cur @ text' p) > maxWidth E - 6
      then packParts E ps (text' p) [p] (flushLine E cps (setFont Normal s))
      else packParts E ps (cur @ text' p) (cps @ [p]) (setFont Normal s)) \<and>
   (textWidth E' Normal = textWidth E Normal \<and> pageWidth E' = pageWidth E \<and>
    pageHeight E' = pageHeight E \<longrightarrow>
      eraseXs (renderLine E' line s) = eraseXs (renderLine E line s))"
proof -
  have "getTextWidth E (setFont Normal s) (cur @ text' p) =
        textWidth E Normal (fontSize s) (cur @ text' p)"
    by (simp add: getTextWidth_def setFont_def emit_def)
  then have "packParts E (p # ps) cur cps s =
     (if textWidth E Normal (fontSize s) (cur @ text' p) > maxWidth E - 6
      then packParts E ps (text' p) [p] (flushLine E cps (setFont Normal s))
      else packParts E ps (cur @ text' p) (cps @ [p]) (setFont Normal s))"
    by (simp add: Let_def)
  moreover have "eraseXs (renderLine E' line s) = eraseXs (renderLine E line s)"
    if "textWidth E' Normal = textWidth E Normal" "pageWidth E' = pageWidth E"
      "pageHeight E' = pageHeight E"
    using that by (intro eraseXs_renderLine) simp_all
  ultimately show ?thesis by blast
qed

theorem overflow_measured_plain_witness:
  "textWidth monoEnv Normal = textWidth demoEnv Normal \<and>
   pageWidth monoEnv = pageWidth demoEnv \<and>
   pageHeight monoEnv = pageHeight demoEnv \<and>
   textWidth monoEnv Bold \<noteq> textWidth demoEnv Bold \<and>
   eraseXs (renderLine monoEnv wideLine (setFontSize 10 newDoc)) =
     eraseXs (renderLine demoEnv wideLine (setFontSize 10 newDoc))"
proof -
  have a: "textWidth monoEnv Normal = textWidth demoEnv Normal"
    by (simp add: monoEnv_def demoEnv_def)
  have b: "pageWidth monoEnv = pageWidth demoEnv" "pageHeight monoEnv = pageHeight demoEnv"
    by (simp_all add: monoEnv_def demoEnv_def)
  have "textWidth monoEnv Bold 10 ''b'' \<noteq> textWidth demoEnv Bold 10 ''b''"
    by (simp add: monoEnv_def demoEnv_def)
  then have c: "textWidth monoEnv Bold \<noteq> textWidth demoEnv Bold" by metis
  from overflow_measured_plain [where E = demoEnv and E' = monoEnv and line = wideLine
      and s = "setFontSize 10 newDoc"] a b c
  show ?thesis by blast
qed

text \<open>
  Claim C5 as stated fails.  In a font whose bold face is wider, 40 plain characters
  followed by 40 emphasised ones measure 160 in the normal face and 200 as they are
  drawn; the limit is 174, and both runs are drawn on the same visual line.
\<close>

theorem bold_run_measured_plain:
  "ops (renderLine demoEnv wideLine (setFontSize 10 newDoc)) =
     [SetFontSize 10, SetFont ''helvetica'' Normal, SetFont ''helvetica'' Normal,
      SetFont ''helvetica'' Normal, Text (replicate 40 CHR ''a'') 18 15,
      SetFont ''helvetica'' Bold, Text (replicate 40 CHR ''b'') 98 15] \<and>
   textWidth demoEnv Normal 10 (replicate 40 CHR ''a'' @ replicate 40 CHR ''b'') = 160 \<and>
   textWidth demoEnv Normal 10 (replicate 40 CHR ''a'')
     + textWidth demoEnv Bold 10 (replicate 40 CHR ''b'') = 200 \<and>
   maxWidth demoEnv - 6 = 174"
  by code_simp

end
